theory Spec2Isabelle
  imports Main "HOL-Library.Word"
begin

unbundle bit_operations_syntax

section \<open>The ring buffer of node_based.go\<close>

text \<open>
  The buffer is modelled as the Go code has it: \<open>head\<close>, \<open>tail\<close> and \<open>mask\<close> are
  \<open>uint64\<close> values (64-bit words whose arithmetic wraps around), \<open>element\<close> is the
  slice of nodes, and a node holds its \<open>step\<close> and its \<open>value\<close>.  The padding fields
  carry no data and are left out.  The fields \<open>mask\<close> and \<open>value\<close> carry a prime,
  since the plain names are taken by the word library and by Isabelle.

  The operations are embedded as they run when one goroutine calls them after the
  other: every atomic load reads the current state, and the compare-and-swap is the
  function \<open>CompareAndSwapUint64\<close> applied to the current contents of the counter.
  Indexing the slice outside its length is the run-time panic of Go and is the error
  \<open>IndexOutOfRange\<close> here.  Allocation (\<open>make\<close>) is taken to succeed.
\<close>

datatype error = IndexOutOfRange

record 'a node =
  step :: "64 word"
  value' :: 'a

record 'a nodeBased =
  head :: "64 word"
  tail :: "64 word"
  mask' :: "64 word"
  element :: "'a node list"

text \<open>
  \<open>atomic.CompareAndSwapUint64(addr, old, new)\<close> on a counter that holds \<open>cur\<close>:
  whether the swap happened, and the contents afterwards.
\<close>

definition CompareAndSwapUint64 :: "64 word \<Rightarrow> 64 word \<Rightarrow> 64 word \<Rightarrow> bool \<times> 64 word" where
  "CompareAndSwapUint64 cur old new = (if cur = old then (True, new) else (False, cur))"

text \<open>
  \<open>newNodeBased(capacity)\<close>: node \<open>i\<close> starts with step \<open>i\<close> and the zero value \<open>z\<close>
  of the element type; \<open>mask = capacity - 1\<close> in \<open>uint64\<close> arithmetic.
\<close>

definition newNodeBased :: "'a \<Rightarrow> 64 word \<Rightarrow> 'a nodeBased" where
  "newNodeBased z capacity =
     \<lparr> head = 0, tail = 0, mask' = capacity - 1,
       element = map (\<lambda>i. \<lparr> step = of_nat i, value' = z \<rparr>) [0 ..< unat capacity] \<rparr>"

text \<open>\<open>Offer(value)\<close>: the result is the success flag and the buffer afterwards.\<close>

definition Offer :: "'a \<Rightarrow> 'a nodeBased \<Rightarrow> error + (bool \<times> 'a nodeBased)" where
  "Offer v r =
     (let oldTail = tail r;
          i = unat (oldTail AND mask' r)
      in if \<not> i < length (element r) then Inl IndexOutOfRange
         else
           let tailNode = element r ! i;
               oldStep = step tailNode
           in if oldStep \<noteq> oldTail then Inr (False, r)
              else
                case CompareAndSwapUint64 (tail r) oldTail (oldTail + 1) of
                  (False, _) \<Rightarrow> Inr (False, r)
                | (True, newTail) \<Rightarrow>
                    Inr (True, r\<lparr> tail := newTail,
                                 element := (element r)[i := tailNode\<lparr> value' := v, step := step tailNode + 1 \<rparr>] \<rparr>))"

text \<open>
  \<open>Poll()\<close>: the result is the value, the success flag and the buffer afterwards.
  The bare \<open>return\<close> of the failure paths yields the zero value \<open>z\<close> and \<open>false\<close>.
\<close>

definition Poll :: "'a \<Rightarrow> 'a nodeBased \<Rightarrow> error + ('a \<times> bool \<times> 'a nodeBased)" where
  "Poll z r =
     (let oldHead = head r;
          i = unat (oldHead AND mask' r)
      in if \<not> i < length (element r) then Inl IndexOutOfRange
         else
           let headNode = element r ! i;
               oldStep = step headNode
           in if oldStep \<noteq> oldHead + 1 then Inr (z, False, r)
              else
                case CompareAndSwapUint64 (head r) oldHead (oldHead + 1) of
                  (False, _) \<Rightarrow> Inr (z, False, r)
                | (True, newHead) \<Rightarrow>
                    Inr (value' headNode, True,
                         r\<lparr> head := newHead,
                            element := (element r)[i := headNode\<lparr> step := oldStep + mask' r \<rparr>] \<rparr>))"

text \<open>
  \<open>PollNBatched(n)\<close>.  Its three loops are three recursive functions: the scan that
  counts the consecutive ready nodes from \<open>oldHead\<close> (at most \<open>n - count\<close> and at most
  8 of them), the extraction of the claimed batch, and the outer loop \<open>for count < n\<close>.
  The \<open>continue\<close> after a failed compare-and-swap is the recursive call on unchanged
  arguments.
\<close>

lemma unat_succ: "(i::64 word) < limit \<Longrightarrow> unat (i + 1) = Suc (unat i)"
  by unat_arith

function PollNBatched_scan :: "'a nodeBased \<Rightarrow> 64 word \<Rightarrow> 64 word \<Rightarrow> 64 word \<Rightarrow> 64 word \<Rightarrow> error + 64 word" where
  "PollNBatched_scan r oldHead limit i available =
     (if i < limit \<and> available < 8 then
        let nodeIdx = unat ((oldHead + i) AND mask' r)
        in if \<not> nodeIdx < length (element r) then Inl IndexOutOfRange
           else
             let node = element r ! nodeIdx;
                 step = step node
             in if step \<noteq> oldHead + i + 1 then Inr available
                else PollNBatched_scan r oldHead limit (i + 1) (available + 1)
      else Inr available)"
  by pat_completeness auto
termination
  by (relation "measure (\<lambda>(r, oldHead, limit, i, available). unat limit - unat i)")
     (auto simp: word_less_nat_alt unat_succ)

function PollNBatched_extract :: "'a nodeBased \<Rightarrow> 64 word \<Rightarrow> 64 word \<Rightarrow> 64 word \<Rightarrow> 'a list \<Rightarrow> error + ('a list \<times> 'a nodeBased)" where
  "PollNBatched_extract r oldHead available i values =
     (if i < available then
        let nodeIdx = unat ((oldHead + i) AND mask' r)
        in if \<not> nodeIdx < length (element r) then Inl IndexOutOfRange
           else
             let node = element r ! nodeIdx;
                 step = step node
             in PollNBatched_extract (r\<lparr> element := (element r)[nodeIdx := node\<lparr> step := step + mask' r \<rparr>] \<rparr>)
                  oldHead available (i + 1) (values @ [value' node])
      else Inr (values, r))"
  by pat_completeness auto
termination
  by (relation "measure (\<lambda>(r, oldHead, available, i, values). unat available - unat i)")
     (auto simp: word_less_nat_alt unat_succ)

declare PollNBatched_scan.simps [simp del]
declare PollNBatched_extract.simps [simp del]

lemma PollNBatched_scan_bound:
  "PollNBatched_scan r oldHead limit i available = Inr a \<Longrightarrow> i \<le> limit \<Longrightarrow>
     unat a + unat i \<le> unat available + unat limit"
proof (induction r oldHead limit i available rule: PollNBatched_scan.induct)
  case (1 r oldHead limit i available)
  show ?case
  proof (cases "i < limit \<and> available < 8")
    case False
    with "1.prems" show ?thesis
      by (simp add: PollNBatched_scan.simps [of r oldHead limit i available] word_le_nat_alt)
  next
    case True
    then have i: "unat (i + 1) = Suc (unat i)" and a: "unat (available + 1) = Suc (unat available)"
      by (auto simp: unat_succ)
    from True have le: "i + 1 \<le> limit" by (simp add: inc_le)
    from True have il: "unat i < unat limit" by (simp only: word_less_nat_alt)
    show ?thesis
    proof (cases "PollNBatched_scan r oldHead limit (i + 1) (available + 1) = Inr a")
      case True
      from "1.IH" [OF \<open>i < limit \<and> available < 8\<close> refl _ refl refl _ True le] "1.prems"
        \<open>i < limit \<and> available < 8\<close> il
      show ?thesis
        by (auto simp: PollNBatched_scan.simps [of r oldHead limit i available] Let_def i a
              split: if_splits)
    next
      case False
      with "1.prems" \<open>i < limit \<and> available < 8\<close> have "a = available"
        by (simp add: PollNBatched_scan.simps [of r oldHead limit i available] Let_def
              split: if_splits)
      then show ?thesis using il by simp
    qed
  qed
qed

function PollNBatched_loop :: "64 word \<Rightarrow> 64 word \<Rightarrow> 'a list \<Rightarrow> 'a nodeBased \<Rightarrow> error + ('a list \<times> 64 word \<times> 'a nodeBased)" where
  "PollNBatched_loop n count values r =
     (if count < n then
        let oldHead = head r
        in case PollNBatched_scan r oldHead (n - count) 0 0 of
             Inl e \<Rightarrow> Inl e
           | Inr available \<Rightarrow>
               if available = 0 then Inr (values, count, r)
               else
                 (case CompareAndSwapUint64 (head r) oldHead (oldHead + available) of
                    (False, _) \<Rightarrow> PollNBatched_loop n count values r
                  | (True, newHead) \<Rightarrow>
                      (case PollNBatched_extract (r\<lparr> head := newHead \<rparr>) oldHead available 0 values of
                         Inl e \<Rightarrow> Inl e
                       | Inr (values', r') \<Rightarrow> PollNBatched_loop n (count + available) values' r'))
      else Inr (values, count, r))"
  by pat_completeness auto
termination
proof (relation "measure (\<lambda>(n, count, values, r). unat n - unat count)", goal_cases)
  case 1
  show ?case by simp
next
  case (2 n count vals r oldHead available swapped newHead res vals' r')
  from PollNBatched_scan_bound [OF \<open>PollNBatched_scan r oldHead (n - count) 0 0 = Inr available\<close>]
  have "unat available \<le> unat (n - count)" by simp
  moreover from \<open>available \<noteq> 0\<close> have "0 < unat available" by (simp add: unat_gt_0)
  moreover from \<open>count < n\<close> have "unat (n - count) = unat n - unat count" "unat count < unat n"
    by (simp_all only: unat_sub [OF order.strict_implies_order] word_less_nat_alt)
  moreover have "unat n < 2 ^ LENGTH(64)" by (rule unsigned_less)
  ultimately have "unat (count + available) = unat count + unat available"
    by (intro unat_add_lem [THEN iffD1]) linarith
  with \<open>0 < unat available\<close> \<open>unat count < unat n\<close> show ?case by simp
next
  case (3 n count vals r oldHead available swapped newHead)
  then show ?case by (simp add: CompareAndSwapUint64_def)
qed

declare PollNBatched_loop.simps [simp del]

definition PollNBatched :: "64 word \<Rightarrow> 'a nodeBased \<Rightarrow> error + ('a list \<times> 64 word \<times> 'a nodeBased)" where
  "PollNBatched n r = (if n = 0 then Inr ([], 0, r) else PollNBatched_loop n 0 [] r)"

text \<open>
  A caller that applies a sequence of operations to the buffer, one after the other,
  and records what each call returned.  A panic ends the run.
\<close>

datatype 'a operation = OpOffer 'a | OpPoll | OpPollNBatched "64 word"

datatype 'a outcome = Offered bool | Polled 'a bool | PolledN "'a list" "64 word"

fun perform :: "'a \<Rightarrow> 'a operation \<Rightarrow> 'a nodeBased \<Rightarrow> error + ('a outcome \<times> 'a nodeBased)" where
  "perform z (OpOffer v) r =
     (case Offer v r of Inl e \<Rightarrow> Inl e | Inr (ok, r') \<Rightarrow> Inr (Offered ok, r'))"
| "perform z OpPoll r =
     (case Poll z r of Inl e \<Rightarrow> Inl e | Inr (v, ok, r') \<Rightarrow> Inr (Polled v ok, r'))"
| "perform z (OpPollNBatched n) r =
     (case PollNBatched n r of Inl e \<Rightarrow> Inl e | Inr (vs, cnt, r') \<Rightarrow> Inr (PolledN vs cnt, r'))"

fun run :: "'a \<Rightarrow> 'a operation list \<Rightarrow> 'a nodeBased \<Rightarrow> error + ('a outcome list \<times> 'a nodeBased)" where
  "run z [] r = Inr ([], r)"
| "run z (op # ops) r =
     (case perform z op r of
        Inl e \<Rightarrow> Inl e
      | Inr (out, r') \<Rightarrow>
          (case run z ops r' of Inl e \<Rightarrow> Inl e | Inr (outs, r'') \<Rightarrow> Inr (out # outs, r'')))"



section \<open>Notions used to state the properties\<close>

text \<open>
  \<open>in_range r\<close>: the mask is a valid index of the slice, so that no masked position
  falls outside it.  \<open>ready r p\<close>: the node of position \<open>p\<close> holds a published
  value (its step is \<open>p + 1\<close>), the test of \<open>Poll\<close> and of the scan.
  \<open>slot r p\<close> is the index \<open>p & mask\<close> of position \<open>p\<close>.
\<close>

definition in_range :: "'a nodeBased \<Rightarrow> bool" where
  "in_range r \<longleftrightarrow> unat (mask' r) < length (element r)"

definition ready :: "'a nodeBased \<Rightarrow> 64 word \<Rightarrow> bool" where
  "ready r p \<longleftrightarrow> step (element r ! unat (p AND mask' r)) = p + 1"


fun Poll_stop :: "'a \<Rightarrow> nat \<Rightarrow> 'a nodeBased \<Rightarrow> error + ('a list \<times> 'a nodeBased)" where
  "Poll_stop z 0 r = Inr ([], r)"
| "Poll_stop z (Suc k) r =
     (case Poll z r of
        Inl e \<Rightarrow> Inl e
      | Inr (v, ok, r') \<Rightarrow>
          if ok then (case Poll_stop z k r' of Inl e \<Rightarrow> Inl e | Inr (vs, r'') \<Rightarrow> Inr (v # vs, r''))
          else Inr ([], r'))"

text \<open>
  \<open>valid k r\<close> describes the states of a buffer of capacity \<open>2 ^ k\<close>: with
  \<open>d = tail - head\<close> (in \<open>uint64\<close> arithmetic) at most the capacity, the nodes of
  the positions \<open>head, ..., head + d - 1\<close> hold published values (step = position
  + 1) and the nodes of the remaining \<open>2 ^ k - d\<close> positions up to
  \<open>head + 2 ^ k - 1\<close> are free for the producers (step = position).
  \<open>contents r\<close> lists the values of the positions \<open>head, ..., tail - 1\<close>, oldest
  first.
\<close>

definition slot :: "'a nodeBased \<Rightarrow> 64 word \<Rightarrow> nat" where
  "slot r p = unat (p AND mask' r)"

definition valid :: "nat \<Rightarrow> 'a nodeBased \<Rightarrow> bool" where
  "valid k r \<longleftrightarrow>
     1 \<le> k \<and> k < 64 \<and> mask' r = 2 ^ k - 1 \<and> length (element r) = 2 ^ k \<and>
     unat (tail r - head r) \<le> 2 ^ k \<and>
     (\<forall>j < 2 ^ k. step (element r ! slot r (head r + of_nat j)) =
        (if j < unat (tail r - head r) then head r + of_nat j + 1 else head r + of_nat j))"

definition contents :: "'a nodeBased \<Rightarrow> 'a list" where
  "contents r = map (\<lambda>j. value' (element r ! slot r (head r + of_nat j))) [0 ..< unat (tail r - head r)]"

text \<open>
  What a call adds to the two counters: a successful \<open>Offer\<close> is one offered value,
  a successful \<open>Poll\<close> is one polled value, and \<open>PollNBatched\<close> polls as many
  values as the count it returns.
\<close>

fun offered :: "'a outcome \<Rightarrow> nat" where
  "offered (Offered success) = (if success then 1 else 0)"
| "offered (Polled v success) = 0"
| "offered (PolledN vs cnt) = 0"

fun polled :: "'a outcome \<Rightarrow> nat" where
  "polled (Offered success) = 0"
| "polled (Polled v success) = (if success then 1 else 0)"
| "polled (PolledN vs cnt) = unat cnt"





section \<open>Offer and Poll, case by case\<close>

lemma index_in_range: "in_range r \<Longrightarrow> unat (p AND mask' r) < length (element r)"
proof -
  have "unat (p AND mask' r) \<le> unat (mask' r)"
    by (rule word_and_le1 [THEN word_le_nat_alt [THEN iffD1]])
  then show "in_range r \<Longrightarrow> ?thesis" by (simp add: in_range_def)
qed

lemma Poll_ready:
  "in_range r \<Longrightarrow> ready r (head r) \<Longrightarrow>
     Poll z r = Inr (value' (element r ! unat (head r AND mask' r)), True,
       r\<lparr> head := head r + 1,
          element := (element r)[unat (head r AND mask' r) :=
             (element r ! unat (head r AND mask' r))\<lparr> step := head r + 1 + mask' r \<rparr>] \<rparr>)"
  by (simp add: Poll_def Let_def ready_def index_in_range CompareAndSwapUint64_def)

lemma Poll_not_ready:
  "in_range r \<Longrightarrow> \<not> ready r (head r) \<Longrightarrow> Poll z r = Inr (z, False, r)"
  by (simp add: Poll_def Let_def ready_def index_in_range)

lemma Offer_ok:
  "in_range r \<Longrightarrow> step (element r ! unat (tail r AND mask' r)) = tail r \<Longrightarrow>
     Offer v r = Inr (True,
       r\<lparr> tail := tail r + 1,
          element := (element r)[unat (tail r AND mask' r) :=
             (element r ! unat (tail r AND mask' r))\<lparr> value' := v, step := tail r + 1 \<rparr>] \<rparr>)"
  by (simp add: Offer_def Let_def index_in_range CompareAndSwapUint64_def)

lemma Offer_fail:
  "in_range r \<Longrightarrow> step (element r ! unat (tail r AND mask' r)) \<noteq> tail r \<Longrightarrow>
     Offer v r = Inr (False, r)"
  by (simp add: Offer_def Let_def index_in_range)


lemma Poll_False: "Poll z r = Inr (x, False, r') \<Longrightarrow> r' = r"
  by (auto simp: Poll_def Let_def CompareAndSwapUint64_def split: if_splits)

lemma PollNBatched_scan_spec:
  "PollNBatched_scan r h limit i available = Inr a \<Longrightarrow> available = i \<Longrightarrow> i \<le> limit \<Longrightarrow> i \<le> 8 \<Longrightarrow>
     i \<le> a \<and> a \<le> limit \<and> a \<le> 8 \<and> (\<forall>j. i \<le> j \<and> j < a \<longrightarrow> ready r (h + j)) \<and>
     (a < limit \<and> a < 8 \<longrightarrow> \<not> ready r (h + a))"
proof (induction r h limit i available rule: PollNBatched_scan.induct)
  case (1 r h limit i available)
  note eq = PollNBatched_scan.simps [of r h limit i available]
  show ?case
  proof (cases "i < limit \<and> available < 8")
    case False
    then have "PollNBatched_scan r h limit i available = Inr available"
      by (subst eq) (simp only: if_False)
    with "1.prems" have "a = i" by simp
    with False "1.prems" show ?thesis by auto
  next
    case True
    show ?thesis
    proof (cases "ready r (h + i)")
      case False
      with True have "PollNBatched_scan r h limit i available = Inr available \<or>
          PollNBatched_scan r h limit i available = Inl IndexOutOfRange"
        by (subst (1 2) eq) (simp add: Let_def ready_def)
      with "1.prems" have "a = i" by auto
      with False True "1.prems" show ?thesis by auto
    next
      case rdy: True
      have "PollNBatched_scan r h limit i available =
          (if \<not> unat (h + i AND mask' r) < length (element r) then Inl IndexOutOfRange
           else PollNBatched_scan r h limit (i + 1) (available + 1))"
        using True rdy by (subst eq) (simp add: Let_def ready_def)
      with "1.prems"(1) have rec: "PollNBatched_scan r h limit (i + 1) (available + 1) = Inr a"
        and inr: "unat (h + i AND mask' r) < length (element r)"
        by (simp_all split: if_splits)
      from True "1.prems" have le: "i + 1 \<le> limit" "i + 1 \<le> 8" "i \<le> i + 1"
        by (simp_all add: inc_le) unat_arith+
      from rdy have st: "\<not> step (element r ! unat (h + i AND mask' r)) \<noteq> h + i + 1"
        by (simp add: ready_def)
      from "1.IH" [OF True refl _ refl refl st rec _ le(1,2)] "1.prems"
      have IH: "i + 1 \<le> a" "a \<le> limit" "a \<le> 8" "\<forall>j. i + 1 \<le> j \<and> j < a \<longrightarrow> ready r (h + j)"
        "a < limit \<and> a < 8 \<longrightarrow> \<not> ready r (h + a)"
        using inr by simp_all
      have "ready r (h + j)" if "i \<le> j" "j < a" for j
      proof (cases "j = i")
        case True
        with rdy show ?thesis by simp
      next
        case False
        with that have "i < j" by simp
        then have "i + 1 \<le> j" by (rule inc_le)
        with IH(4) that show ?thesis by simp
      qed
      with IH le show ?thesis by auto
    qed
  qed
qed

lemma PollNBatched_scan_total:
  "in_range r \<Longrightarrow> \<exists>a. PollNBatched_scan r h limit i available = Inr a"
proof (induction r h limit i available rule: PollNBatched_scan.induct)
  case (1 r h limit i available)
  note eq = PollNBatched_scan.simps [of r h limit i available]
  show ?case
  proof (cases "i < limit \<and> available < 8 \<and> step (element r ! unat (h + i AND mask' r)) = h + i + 1")
    case False
    then show ?thesis
      by (subst eq) (auto simp: Let_def index_in_range [OF "1.prems"])
  next
    case True
    with "1.IH" [OF _ refl _ refl refl] "1.prems"
    obtain a where "PollNBatched_scan r h limit (i + 1) (available + 1) = Inr a"
      by (auto simp: index_in_range)
    with True show ?thesis
      by (subst eq) (simp add: Let_def index_in_range [OF "1.prems"])
  qed
qed

lemma PollNBatched_extract_Poll_stop:
  "unat a - unat i = m \<Longrightarrow> in_range r \<Longrightarrow> head r = h + i \<Longrightarrow> i \<le> a \<Longrightarrow>
   (\<forall>j. i \<le> j \<and> j < a \<longrightarrow> ready r (h + j)) \<Longrightarrow>
   \<exists>vs r'. Poll_stop z m r = Inr (vs, r') \<and> length vs = m \<and> head r' = h + a \<and>
      PollNBatched_extract (r\<lparr> head := X \<rparr>) h a i vals = Inr (vals @ vs, r'\<lparr> head := X \<rparr>)"
proof (induction m arbitrary: r i vals)
  case 0
  then have "unat a \<le> unat i" "unat i \<le> unat a" by (simp_all add: word_le_nat_alt)
  then have "i = a" by (simp add: word_unat_eq_iff)
  with 0 show ?case
    by (simp add: PollNBatched_extract.simps [of _ h a a])
next
  case (Suc m)
  let ?k = "unat (h + i AND mask' r)"
  let ?r1 = "r\<lparr> head := head r + 1,
          element := (element r)[unat (head r AND mask' r) :=
             (element r ! unat (head r AND mask' r))\<lparr> step := head r + 1 + mask' r \<rparr>] \<rparr>"
  from Suc.prems have "unat i < unat a" by simp
  then have ia: "i < a" by (simp add: word_less_nat_alt)
  then have i1: "unat (i + 1) = Suc (unat i)" "i + 1 \<le> a" by (simp_all add: unat_succ inc_le)
  from Suc.prems ia have rdy: "ready r (head r)" by simp
  note P = Poll_ready [OF \<open>in_range r\<close> rdy, of z]
  have "in_range ?r1" using \<open>in_range r\<close> by (simp add: in_range_def)
  moreover have "head ?r1 = h + (i + 1)" using Suc.prems by simp
  moreover have "unat a - unat (i + 1) = m" using Suc.prems i1 by simp
  moreover have "\<forall>j. i + 1 \<le> j \<and> j < a \<longrightarrow> ready ?r1 (h + j)"
  proof (intro allI impI)
    fix j assume j: "i + 1 \<le> j \<and> j < a"
    with ia have "i < j" by unat_arith
    with j Suc.prems have rj: "ready r (h + j)" by simp
    have "unat (h + j AND mask' r) \<noteq> unat (h + i AND mask' r)"
    proof
      assume "unat (h + j AND mask' r) = unat (h + i AND mask' r)"
      with rj rdy Suc.prems have "h + j + 1 = h + i + 1" by (simp add: ready_def)
      with \<open>i < j\<close> show False by simp
    qed
    with rj Suc.prems show "ready ?r1 (h + j)" by (simp add: ready_def)
  qed
  ultimately obtain vs r' where IH: "Poll_stop z m ?r1 = Inr (vs, r')" "length vs = m" "head r' = h + a"
      "PollNBatched_extract (?r1\<lparr> head := X \<rparr>) h a (i + 1) (vals @ [value' (element r ! ?k)])
         = Inr ((vals @ [value' (element r ! ?k)]) @ vs, r'\<lparr> head := X \<rparr>)"
    using Suc.IH [of "i + 1" ?r1 "vals @ [value' (element r ! ?k)]"] i1 by blast
  from rdy Suc.prems have st: "step (element r ! ?k) = h + i + 1" by (simp add: ready_def)
  have upd: "r\<lparr> head := X, element := E \<rparr> = r\<lparr> element := E, head := X \<rparr>" for E
    by (cases r) simp
  have "PollNBatched_extract (r\<lparr> head := X \<rparr>) h a i vals =
     PollNBatched_extract (?r1\<lparr> head := X \<rparr>) h a (i + 1) (vals @ [value' (element r ! ?k)])"
    using ia index_in_range [OF \<open>in_range r\<close>, of "h + i"] st Suc.prems
    by (subst PollNBatched_extract.simps) (simp add: Let_def upd)
  with IH P Suc.prems show ?case by simp
qed

lemma Poll_frame:
  "Poll z r = Inr (v, ok, r') \<Longrightarrow> mask' r' = mask' r \<and> length (element r') = length (element r) \<and> tail r' = tail r"
  by (auto simp: Poll_def Let_def CompareAndSwapUint64_def split: if_splits)

lemma Poll_in_range: "Poll z r = Inr (v, ok, r') \<Longrightarrow> in_range r \<Longrightarrow> in_range r'"
  by (drule Poll_frame) (simp add: in_range_def)

lemma Poll_total: "in_range r \<Longrightarrow> \<exists>v ok r'. Poll z r = Inr (v, ok, r')"
  by (cases "ready r (head r)") (auto simp: Poll_ready Poll_not_ready)

lemma Poll_stop_in_range:
  "Poll_stop z m r = Inr (vs, r') \<Longrightarrow> in_range r \<Longrightarrow> in_range r' \<and> length vs \<le> m"
proof (induction m arbitrary: r vs)
  case 0
  then show ?case by simp
next
  case (Suc m)
  then show ?case
    by (fastforce split: sum.splits prod.splits if_splits dest: Poll_in_range Poll_False)
qed

lemma Poll_stop_not_ready:
  "in_range r \<Longrightarrow> \<not> ready r (head r) \<Longrightarrow> Poll_stop z m r = Inr ([], r)"
  by (cases m) (simp_all add: Poll_not_ready)

lemma Poll_stop_add:
  "Poll_stop z a r = Inr (vs1, r1) \<Longrightarrow> length vs1 = a \<Longrightarrow>
   Poll_stop z (a + b) r =
     (case Poll_stop z b r1 of Inl e \<Rightarrow> Inl e | Inr (vs2, r2) \<Rightarrow> Inr (vs1 @ vs2, r2))"
proof (induction a arbitrary: r vs1)
  case 0
  then show ?case by (simp split: sum.splits)
next
  case (Suc a)
  then show ?case
    by (auto split: sum.splits prod.splits if_splits)
qed

lemma count_plus_batch:
  "(count::64 word) < n \<Longrightarrow> b \<le> n - count \<Longrightarrow>
     unat (count + b) = unat count + unat b \<and> count + b \<le> n \<and> unat count + unat b \<le> unat n"
  by unat_arith

lemma head_update_same: "head r = X \<Longrightarrow> r\<lparr> head := X \<rparr> = r"
  by (cases r) simp

lemma PollNBatched_loop_Poll_stop:
  "in_range r \<Longrightarrow> count \<le> n \<Longrightarrow>
   \<exists>vs r'. Poll_stop z (unat n - unat count) r = Inr (vs, r') \<and>
      PollNBatched_loop n count vals r = Inr (vals @ vs, count + of_nat (length vs), r')"
proof (induction n count vals r rule: PollNBatched_loop.induct)
  case (1 n count vals r)
  note eq = PollNBatched_loop.simps [of n count vals r]
  show ?case
  proof (cases "count < n")
    case False
    with "1.prems" have "count = n" by simp
    then show ?thesis by (subst eq) simp
  next
    case True
    from PollNBatched_scan_total [OF \<open>in_range r\<close>]
    obtain b where scan: "PollNBatched_scan r (head r) (n - count) 0 0 = Inr b" by blast
    from PollNBatched_scan_spec [OF scan refl] have b: "b \<le> n - count" "b \<le> 8"
      "\<forall>j. 0 \<le> j \<and> j < b \<longrightarrow> ready r (head r + j)"
      "b < n - count \<and> b < 8 \<longrightarrow> \<not> ready r (head r + b)"
      by simp_all
    show ?thesis
    proof (cases "b = 0")
      case b0: True
      from True have "0 < n - count" by unat_arith
      with b(4) b0 have "\<not> ready r (head r)" by simp
      then have "Poll_stop z (unat n - unat count) r = Inr ([], r)"
        by (rule Poll_stop_not_ready [OF \<open>in_range r\<close>])
      moreover have "PollNBatched_loop n count vals r = Inr (vals, count, r)"
        using True scan b0 by (subst eq) simp
      ultimately show ?thesis by simp
    next
      case False
      from count_plus_batch [OF True b(1)]
      have cb: "unat (count + b) = unat count + unat b" "count + b \<le> n" "unat count + unat b \<le> unat n"
        by simp_all
      from PollNBatched_extract_Poll_stop [of b 0 "unat b" r "head r" z "head r + b" vals] \<open>in_range r\<close> b(3)
      obtain vs1 r1 where ex: "Poll_stop z (unat b) r = Inr (vs1, r1)" "length vs1 = unat b"
        "head r1 = head r + b"
        "PollNBatched_extract (r\<lparr> head := head r + b \<rparr>) (head r) b 0 vals
           = Inr (vals @ vs1, r1\<lparr> head := head r + b \<rparr>)"
        by auto
      from ex(3) have r1: "r1\<lparr> head := head r + b \<rparr> = r1" by (rule head_update_same)
      from Poll_stop_in_range [OF ex(1) \<open>in_range r\<close>] have ir1: "in_range r1" by simp
      have cas: "(True, head r + b) = CompareAndSwapUint64 (head r) (head r) (head r + b)"
        by (simp add: CompareAndSwapUint64_def)
      from "1.IH"(1) [OF True refl scan False cas refl ex(4) [unfolded r1] refl ir1 cb(2)]
      obtain vs2 r2 where IH: "Poll_stop z (unat n - unat (count + b)) r1 = Inr (vs2, r2)"
        "PollNBatched_loop n (count + b) (vals @ vs1) r1
           = Inr ((vals @ vs1) @ vs2, count + b + of_nat (length vs2), r2)"
        by blast
      have "unat n - unat count = unat b + (unat n - unat (count + b))"
        using cb by simp
      with Poll_stop_add [OF ex(1,2), of "unat n - unat (count + b)"] IH(1)
      have "Poll_stop z (unat n - unat count) r = Inr (vs1 @ vs2, r2)" by simp
      moreover have "PollNBatched_loop n count vals r
          = PollNBatched_loop n (count + b) (vals @ vs1) r1"
        using True scan False ex(4) r1 by (subst eq) (simp add: CompareAndSwapUint64_def)
      moreover have "count + of_nat (length (vs1 @ vs2)) = count + b + of_nat (length vs2)"
        using ex(2) by simp
      ultimately show ?thesis using IH(2) by simp
    qed
  qed
qed

section \<open>The states of a buffer whose capacity is a power of two\<close>

lemma slot_eq:
  assumes "mask' r = 2 ^ k - 1" "k < 64"
  shows "slot r (h + of_nat j) = (unat h + j) mod 2 ^ k"
proof -
  have "slot r (h + of_nat j) = unat (take_bit k (h + of_nat j))"
    using assms by (simp add: slot_def take_bit_eq_mask mask_eq_exp_minus_1)
  also have "\<dots> = unat (h + of_nat j) mod 2 ^ k"
    by (simp only: unsigned_take_bit_eq) (simp add: take_bit_eq_mod)
  also have "unat (h + of_nat j) = (unat h + j) mod 2 ^ 64"
    by (simp add: unat_word_ariths unat_of_nat mod_simps)
  also have "(unat h + j) mod 2 ^ 64 mod 2 ^ k = (unat h + j) mod 2 ^ k"
    using assms(2) by (intro mod_mod_cancel le_imp_power_dvd) simp
  finally show ?thesis .
qed

lemma mod_add_inj:
  fixes a i j n :: nat
  assumes "(a + i) mod n = (a + j) mod n" "i < n" "j < n"
  shows "i = j"
proof -
  have *: "i' = j'" if "(a + i') mod n = (a + j') mod n" "i' \<le> j'" "j' < n" for i' j'
  proof -
    from that(2) have "a + i' \<le> a + j'" by simp
    from mod_eq_dvd_iff_nat [OF this, of n] that(1) have "n dvd (a + j') - (a + i')"
      by simp
    then have "n dvd j' - i'" by simp
    moreover from that have "j' - i' < n" by simp
    ultimately have "\<not> 0 < j' - i'" using nat_dvd_not_less [of "j' - i'" n] by blast
    then have "j' - i' = 0" by simp
    with that show ?thesis by simp
  qed
  show ?thesis
  proof (cases "i \<le> j")
    case True
    from assms(1) True assms(3) show ?thesis by (rule *)
  next
    case False
    then have "j \<le> i" by simp
    from assms(1) [symmetric] this assms(2) have "j = i" by (rule *)
    then show ?thesis by simp
  qed
qed

lemma slot_inj:
  assumes "mask' r = 2 ^ k - 1" "k < 64" "i < 2 ^ k" "j < 2 ^ k"
    and "slot r (h + of_nat i) = slot r (h + of_nat j)"
  shows "i = j"
proof -
  from assms have "(unat h + i) mod 2 ^ k = (unat h + j) mod 2 ^ k"
    by (simp add: slot_eq)
  with assms(3,4) show ?thesis by (rule mod_add_inj [rotated 1])
qed

lemma unat_2p64: "k < 64 \<Longrightarrow> unat (2 ^ k :: 64 word) = 2 ^ k"
proof -
  assume k: "k < 64"
  then have "(2 ^ k :: 64 word) \<noteq> 0" by simp
  then have "0 < (2 ^ k :: 64 word)" by (simp only: word_neq_0_conv)
  then have "uint (2 ^ k :: 64 word) = 2 ^ k" by (rule uint_2p)
  then show ?thesis by (simp only: unat_eq_nat_uint) simp
qed

lemma unat_2p64_minus_1: "k < 64 \<Longrightarrow> unat (2 ^ k - 1 :: 64 word) = 2 ^ k - 1"
  by (simp add: unat_minus_one unat_2p64)

lemma valid_in_range: "valid k r \<Longrightarrow> in_range r"
  by (simp add: valid_def in_range_def unat_2p64_minus_1)

lemma slot_less: "valid k r \<Longrightarrow> slot r p < 2 ^ k"
proof -
  assume v: "valid k r"
  then have "length (element r) = 2 ^ k" by (simp add: valid_def)
  with index_in_range [OF valid_in_range [OF v], of p] show ?thesis by (simp add: slot_def)
qed

lemma length_contents: "length (contents r) = unat (tail r - head r)"
  by (simp add: contents_def)

lemma newNodeBased_valid:
  assumes "1 \<le> k" "k < 64"
  shows "valid k (newNodeBased z (2 ^ k))" and "contents (newNodeBased z (2 ^ k)) = []"
proof -
  let ?r = "newNodeBased z (2 ^ k)"
  have m: "mask' ?r = 2 ^ k - 1" by (simp add: newNodeBased_def)
  have "step (element ?r ! slot ?r (head ?r + of_nat j)) = head ?r + of_nat j" if "j < 2 ^ k" for j
  proof -
    have "slot ?r (head ?r + of_nat j) = j"
      using slot_eq [OF m assms(2), of 0 j] that by (simp add: newNodeBased_def)
    with that assms show ?thesis by (simp add: newNodeBased_def unat_2p64)
  qed
  moreover have "length (element ?r) = 2 ^ k" "unat (tail ?r - head ?r) = 0"
    using assms by (simp_all add: newNodeBased_def unat_2p64)
  ultimately show "valid k ?r" using assms m unfolding valid_def by simp
  show "contents ?r = []" by (simp add: contents_def newNodeBased_def)
qed

lemma slot_update [simp]:
  "slot (r\<lparr> element := e \<rparr>) p = slot r p"
  "slot (r\<lparr> head := h \<rparr>) p = slot r p"
  "slot (r\<lparr> tail := t \<rparr>) p = slot r p"
  by (simp_all add: slot_def)

lemma valid_Offer:
  assumes v: "valid k r" and d: "unat (tail r - head r) < 2 ^ k"
  shows "\<exists>r'. Offer x r = Inr (True, r') \<and> valid k r' \<and> contents r' = contents r @ [x] \<and>
           head r' = head r \<and> tail r' = tail r + 1"
proof -
  let ?d = "unat (tail r - head r)"
  let ?i = "slot r (tail r)"
  let ?r' = "r\<lparr> tail := tail r + 1,
          element := (element r)[?i := (element r ! ?i)\<lparr> value' := x, step := tail r + 1 \<rparr>] \<rparr>"
  from v have k: "1 \<le> k" "k < 64" and m: "mask' r = 2 ^ k - 1" and len: "length (element r) = 2 ^ k"
    and steps: "\<And>j. j < 2 ^ k \<Longrightarrow> step (element r ! slot r (head r + of_nat j)) =
        (if j < ?d then head r + of_nat j + 1 else head r + of_nat j)"
    by (simp_all add: valid_def)
  have tl: "tail r = head r + of_nat ?d" by simp
  from steps [OF d] have "step (element r ! ?i) = tail r" by simp
  with Offer_ok [OF valid_in_range [OF v], of x] have off: "Offer x r = Inr (True, ?r')"
    by (simp add: slot_def)
  have "tail r - head r < 2 ^ k" using d k by (simp add: word_less_nat_alt unat_2p64)
  then have "unat (tail r - head r + 1) = Suc ?d" by (rule unat_succ)
  then have d': "unat (tail ?r' - head ?r') = Suc ?d" by (simp add: algebra_simps)
  have il: "?i < length (element r)" using slot_less [OF v] len by simp
  have neq: "slot r (head r + of_nat j) \<noteq> ?i" if "j < 2 ^ k" "j \<noteq> ?d" for j
  proof
    assume "slot r (head r + of_nat j) = ?i"
    then have "slot r (head r + of_nat j) = slot r (head r + of_nat ?d)" by simp
    from slot_inj [OF m k(2) that(1) d this] that(2) show False by simp
  qed
  have "step (element ?r' ! slot ?r' (head ?r' + of_nat j)) =
      (if j < Suc ?d then head ?r' + of_nat j + 1 else head ?r' + of_nat j)" if "j < 2 ^ k" for j
  proof (cases "j = ?d")
    case True
    then have "slot r (head r + of_nat j) = ?i" by simp
    with il True show ?thesis by simp
  next
    case False
    with neq [OF that] steps [OF that] show ?thesis by simp
  qed
  with k m len d d' have "valid k ?r'" unfolding valid_def by simp
  moreover have "contents ?r' = contents r @ [x]"
  proof -
    have "value' (element ?r' ! slot ?r' (head ?r' + of_nat j)) =
          value' (element r ! slot r (head r + of_nat j))" if "j < ?d" for j
      using neq [of j] that d by simp
    moreover have "value' (element ?r' ! slot ?r' (head ?r' + of_nat ?d)) = x"
      using il by simp
    ultimately show ?thesis
      unfolding contents_def d' by simp
  qed
  ultimately show ?thesis using off by simp
qed

lemma slot_wrap:
  assumes "mask' r = 2 ^ k - 1" "k < 64"
  shows "slot r (h + 2 ^ k) = slot r h"
proof -
  have "slot r (h + of_nat (2 ^ k)) = slot r (h + of_nat 0)"
    unfolding slot_eq [OF assms] by simp
  then show ?thesis by simp
qed

lemma valid_Offer_full:
  assumes v: "valid k r" and d: "unat (tail r - head r) = 2 ^ k"
  shows "Offer x r = Inr (False, r)"
proof -
  from v have k: "1 \<le> k" "k < 64" and m: "mask' r = 2 ^ k - 1"
    and steps: "\<And>j. j < 2 ^ k \<Longrightarrow> step (element r ! slot r (head r + of_nat j)) =
        (if j < unat (tail r - head r) then head r + of_nat j + 1 else head r + of_nat j)"
    by (simp_all add: valid_def)
  have "of_nat (unat (tail r - head r)) = (2 ^ k :: 64 word)" unfolding d by simp
  then have tl: "tail r = head r + 2 ^ k" by (simp add: diff_eq_eq add.commute)
  from steps [of 0] d have "step (element r ! slot r (head r)) = head r + 1" by simp
  moreover have "slot r (tail r) = slot r (head r)" unfolding tl by (rule slot_wrap [OF m k(2)])
  moreover have "head r + 1 \<noteq> tail r"
  proof
    assume "head r + 1 = tail r"
    with tl have "(2 ^ k :: 64 word) = 1" by simp
    then have "unat (2 ^ k :: 64 word) = unat (1 :: 64 word)" by simp
    with k show False by (simp add: unat_2p64)
  qed
  ultimately show ?thesis
    using Offer_fail [OF valid_in_range [OF v], of x] by (simp add: slot_def)
qed

lemma tl_map_upt: "tl (map f [0 ..< n]) = map (\<lambda>j. f (Suc j)) [0 ..< n - 1]"
proof (cases n)
  case 0
  then show ?thesis by simp
next
  case (Suc m)
  have "tl (map f [0 ..< Suc m]) = map f [Suc 0 ..< Suc m]"
    by (simp add: upt_conv_Cons del: upt_Suc)
  also have "\<dots> = map f (map Suc [0 ..< m])"
    by (simp only: map_Suc_upt)
  finally show ?thesis using Suc by (simp add: comp_def)
qed

lemma value_step_update:
  "value' ((e[i := (e ! i)\<lparr> step := s \<rparr>]) ! n) = value' (e ! n)"
  by (cases "i < length e") (simp_all add: nth_list_update list_update_beyond)

lemma valid_Poll:
  assumes v: "valid k r" and d: "0 < unat (tail r - head r)"
  shows "\<exists>r'. Poll z r = Inr (hd (contents r), True, r') \<and> valid k r' \<and>
           contents r' = tl (contents r) \<and> head r' = head r + 1 \<and> tail r' = tail r"
proof -
  let ?d = "unat (tail r - head r)"
  let ?i = "slot r (head r)"
  let ?r' = "r\<lparr> head := head r + 1,
          element := (element r)[?i := (element r ! ?i)\<lparr> step := head r + 1 + mask' r \<rparr>] \<rparr>"
  from v have k: "1 \<le> k" "k < 64" and m: "mask' r = 2 ^ k - 1" and len: "length (element r) = 2 ^ k"
    and dle: "?d \<le> 2 ^ k"
    and steps: "\<And>j. j < 2 ^ k \<Longrightarrow> step (element r ! slot r (head r + of_nat j)) =
        (if j < ?d then head r + of_nat j + 1 else head r + of_nat j)"
    by (simp_all add: valid_def)
  from steps [of 0] d have "ready r (head r)" by (simp add: ready_def slot_def)
  from Poll_ready [OF valid_in_range [OF v] this, of z]
  have poll: "Poll z r = Inr (value' (element r ! ?i), True, ?r')" by (simp add: slot_def)
  from d have "tail r - head r \<noteq> 0" by (simp add: unat_gt_0)
  then have "unat (tail r - head r - 1) = ?d - 1" by (rule unat_minus_one)
  then have d': "unat (tail ?r' - head ?r') = ?d - 1" by (simp add: algebra_simps)
  have il: "?i < length (element r)" using slot_less [OF v] len by simp
  have hm: "head r + 1 + mask' r = head r + 2 ^ k" unfolding m by simp
  have "step (element ?r' ! slot ?r' (head ?r' + of_nat j)) =
      (if j < ?d - 1 then head ?r' + of_nat j + 1 else head ?r' + of_nat j)" if "j < 2 ^ k" for j
  proof (cases "Suc j < 2 ^ k")
    case True
    have "slot r (head r + of_nat (Suc j)) \<noteq> ?i"
    proof
      assume "slot r (head r + of_nat (Suc j)) = ?i"
      then have "slot r (head r + of_nat (Suc j)) = slot r (head r + of_nat 0)" by simp
      from slot_inj [OF m k(2) True _ this] show False by simp
    qed
    with steps [OF True] show ?thesis by (auto simp: algebra_simps)
  next
    case False
    with that have j: "Suc j = 2 ^ k" by simp
    then have "(of_nat j :: 64 word) + 1 = 2 ^ k"
      by (metis of_nat_Suc of_nat_numeral of_nat_power add.commute)
    then have e: "head r + 1 + of_nat j = head r + 2 ^ k" by (simp add: algebra_simps)
    have e': "head ?r' + of_nat j = head r + 2 ^ k" using e by simp
    have s: "slot ?r' (head r + 2 ^ k) = ?i" by (simp add: slot_wrap [OF m k(2)])
    have nl: "\<not> j < ?d - 1" using j dle by arith
    have "step (element ?r' ! ?i) = head r + 2 ^ k" using il hm by simp
    then have "step (element ?r' ! slot ?r' (head ?r' + of_nat j)) = head ?r' + of_nat j"
      by (simp only: s e')
    then show ?thesis by (simp only: nl if_False)
  qed
  with k m len dle d' have "valid k ?r'" unfolding valid_def by simp
  moreover have "contents ?r' = tl (contents r)"
  proof -
    have "tl (contents r) = map (\<lambda>j. value' (element r ! slot r (head r + of_nat (Suc j)))) [0 ..< ?d - 1]"
      unfolding contents_def by (rule tl_map_upt)
    then show ?thesis
      unfolding contents_def d' by (simp add: value_step_update algebra_simps)
  qed
  moreover have "hd (contents r) = value' (element r ! ?i)"
    using d unfolding contents_def by (simp add: hd_map upt_conv_Cons)
  ultimately show ?thesis using poll by simp
qed

lemma valid_Poll_empty:
  assumes v: "valid k r" and d: "unat (tail r - head r) = 0"
  shows "Poll z r = Inr (z, False, r)"
proof -
  from v have steps: "\<And>j. j < 2 ^ k \<Longrightarrow> step (element r ! slot r (head r + of_nat j)) =
        (if j < unat (tail r - head r) then head r + of_nat j + 1 else head r + of_nat j)"
    by (simp_all add: valid_def)
  from steps [of 0] d have "\<not> ready r (head r)" by (simp add: ready_def slot_def)
  then show ?thesis by (rule Poll_not_ready [OF valid_in_range [OF v]])
qed

lemma run_append:
  "run z (ops1 @ ops2) r =
     (case run z ops1 r of
        Inl e \<Rightarrow> Inl e
      | Inr (outs1, r1) \<Rightarrow>
          (case run z ops2 r1 of Inl e \<Rightarrow> Inl e | Inr (outs2, r2) \<Rightarrow> Inr (outs1 @ outs2, r2)))"
  by (induction ops1 arbitrary: r) (auto split: sum.splits prod.splits)

lemma run_offers:
  "valid k r \<Longrightarrow> length (contents r) + length xs \<le> 2 ^ k \<Longrightarrow>
     \<exists>r'. run z (map OpOffer xs) r = Inr (map (\<lambda>x. Offered True) xs, r') \<and> valid k r' \<and>
          contents r' = contents r @ xs"
proof (induction xs arbitrary: r)
  case Nil
  then show ?case by simp
next
  case (Cons x xs)
  from Cons.prems have "unat (tail r - head r) < 2 ^ k" by (simp add: length_contents)
  from valid_Offer [OF Cons.prems(1) this, of x] obtain r1
    where o: "Offer x r = Inr (True, r1)" "valid k r1" "contents r1 = contents r @ [x]" by blast
  from Cons.IH [OF o(2)] Cons.prems(2) o(3) obtain r'
    where "run z (map OpOffer xs) r1 = Inr (map (\<lambda>x. Offered True) xs, r')" "valid k r'"
      "contents r' = contents r1 @ xs" by auto
  with o show ?case by simp
qed

lemma run_polls:
  "valid k r \<Longrightarrow> m \<le> length (contents r) \<Longrightarrow>
     \<exists>r'. run z (replicate m OpPoll) r = Inr (map (\<lambda>x. Polled x True) (take m (contents r)), r') \<and>
          valid k r' \<and> contents r' = drop m (contents r)"
proof (induction m arbitrary: r)
  case 0
  then show ?case by simp
next
  case (Suc m)
  from Suc.prems have "0 < unat (tail r - head r)" by (simp add: length_contents)
  from valid_Poll [OF Suc.prems(1) this, of z] obtain r1
    where p: "Poll z r = Inr (hd (contents r), True, r1)" "valid k r1"
      "contents r1 = tl (contents r)" by blast
  from Suc.prems obtain c cs where c: "contents r = c # cs" by (cases "contents r") auto
  from Suc.IH [OF p(2)] Suc.prems(2) p(3) c obtain r'
    where "run z (replicate m OpPoll) r1 = Inr (map (\<lambda>x. Polled x True) (take m (contents r1)), r')"
      "valid k r'" "contents r' = drop m (contents r1)" by auto
  with p c show ?case by simp
qed

section \<open>The example trace\<close>

text \<open>
  Claim C4.  On a fresh buffer of capacity 4 (mask 3) the calls Offer(10), Offer(20),
  Offer(30), Offer(40) return true, Offer(50) returns false, Poll() returns (10, true),
  Offer(50) now returns true, the next four Poll() calls return (20, true), (30, true),
  (40, true), (50, true), and the last Poll() returns false (with the zero value, here 0).
\<close>

theorem example_trace_capacity_4:
  "map_sum id fst
     (run 0 [OpOffer 10, OpOffer 20, OpOffer 30, OpOffer 40, OpOffer 50, OpPoll, OpOffer 50,
             OpPoll, OpPoll, OpPoll, OpPoll, OpPoll] (newNodeBased (0::int) 4))
   = Inr [Offered True, Offered True, Offered True, Offered True, Offered False,
          Polled 10 True, Offered True,
          Polled 20 True, Polled 30 True, Polled 40 True, Polled 50 True, Polled 0 False]"
  by (simp add: newNodeBased_def upt_rec Offer_def Poll_def CompareAndSwapUint64_def)

section \<open>A failed call changes nothing\<close>

text \<open>
  Claim C7.  Whenever \<open>Offer\<close> returns false, and whenever \<open>Poll\<close> returns with
  success false, the buffer is exactly as it was before the call: head, tail, mask and
  every node (step and value) are the same.  A call fails at the step test; the
  branch of a failed compare-and-swap, which a call that runs alone never takes,
  returns the buffer unchanged as well.
\<close>

theorem failure_leaves_buffer_unchanged:
  "(Offer v r = Inr (False, r') \<longrightarrow> r' = r) \<and> (Poll z r = Inr (x, False, r'') \<longrightarrow> r'' = r)"
  by (auto simp: Offer_def Poll_def Let_def CompareAndSwapUint64_def split: if_splits)

text \<open>
  The theorem at a full buffer of capacity 2 (the \<open>Offer\<close> fails) and at a fresh,
  empty buffer of capacity 2 (the \<open>Poll\<close> fails).
\<close>

theorem failure_leaves_buffer_unchanged_witness:
  "Offer (7::int) \<lparr>head = 0, tail = 2, mask' = 1,
       element = [\<lparr>step = 1, value' = 5\<rparr>, \<lparr>step = 2, value' = 6\<rparr>]\<rparr>
     = Inr (False, \<lparr>head = 0, tail = 2, mask' = 1,
       element = [\<lparr>step = 1, value' = 5\<rparr>, \<lparr>step = 2, value' = 6\<rparr>]\<rparr>) \<and>
   Poll (0::int) (newNodeBased 0 2) = Inr (0, False, newNodeBased 0 2)"
  using failure_leaves_buffer_unchanged [where v = "7::int" and r = "\<lparr>head = 0, tail = 2, mask' = 1,
         element = [\<lparr>step = 1, value' = 5\<rparr>, \<lparr>step = 2, value' = 6\<rparr>]\<rparr>"
      and r' = "\<lparr>head = 0, tail = 2, mask' = 1,
         element = [\<lparr>step = 1, value' = 5\<rparr>, \<lparr>step = 2, value' = 6\<rparr>]\<rparr>"]
    failure_leaves_buffer_unchanged [where z = "0::int" and r = "newNodeBased 0 2" and x = 0
      and r'' = "newNodeBased 0 2"]
  by (simp add: Offer_def Poll_def newNodeBased_def upt_rec)

section \<open>The step that Poll stores\<close>

text \<open>
  Claim C2 says that a successful \<open>Poll\<close> which claimed head position \<open>h\<close> stores
  \<open>h + mask\<close> into the step of the polled node.  The code stores
  \<open>oldStep + mask\<close> with \<open>oldStep = h + 1\<close>.  On a buffer of capacity 4 after
  \<open>Offer(10)\<close>, the \<open>Poll\<close> that claims position 0 leaves step 4 in node 0, and
  \<open>h + mask\<close> is 3.
\<close>

theorem Poll_stamp_counterexample:
  "Offer (10::int) (newNodeBased 0 4)
     = Inr (True, \<lparr>head = 0, tail = 1, mask' = 3,
         element = [\<lparr>step = 1, value' = 10\<rparr>, \<lparr>step = 1, value' = 0\<rparr>,
                    \<lparr>step = 2, value' = 0\<rparr>, \<lparr>step = 3, value' = 0\<rparr>]\<rparr>) \<and>
   Poll (0::int) \<lparr>head = 0, tail = 1, mask' = 3,
         element = [\<lparr>step = 1, value' = 10\<rparr>, \<lparr>step = 1, value' = 0\<rparr>,
                    \<lparr>step = 2, value' = 0\<rparr>, \<lparr>step = 3, value' = 0\<rparr>]\<rparr>
     = Inr (10, True, \<lparr>head = 1, tail = 1, mask' = 3,
         element = [\<lparr>step = 4, value' = 10\<rparr>, \<lparr>step = 1, value' = 0\<rparr>,
                    \<lparr>step = 2, value' = 0\<rparr>, \<lparr>step = 3, value' = 0\<rparr>]\<rparr>) \<and>
   (4 :: 64 word) \<noteq> 0 + 3"
  by (simp add: Offer_def Poll_def newNodeBased_def upt_rec CompareAndSwapUint64_def)

text \<open>
  Claim C2, amended.  After a successful \<open>Poll\<close> that claimed head position \<open>h\<close>
  on a buffer whose capacity is a power of two \<open>2 ^ k\<close> (so that
  \<open>mask = 2 ^ k - 1\<close>), the step of the polled node is \<open>h + 1 + mask\<close>, which is
  \<open>h + capacity\<close>; and in every later state in which that step is unchanged and the
  tail has reached \<open>h + capacity\<close>, \<open>Offer\<close> finds the node ready and succeeds.
\<close>

theorem Poll_rearms_slot:
  assumes "Poll z r = Inr (v, True, r1)" and "mask' r = 2 ^ k - 1" and "k < 64"
  shows "step (element r1 ! slot r (head r)) = head r + 1 + mask' r \<and>
         head r + 1 + mask' r = head r + 2 ^ k \<and>
         (\<forall>r2 x. mask' r2 = mask' r \<and> length (element r2) = length (element r1) \<and>
                 tail r2 = head r + 2 ^ k \<and>
                 step (element r2 ! slot r (head r)) = step (element r1 ! slot r (head r))
            \<longrightarrow> (\<exists>r3. Offer x r2 = Inr (True, r3)))"
proof -
  let ?i = "slot r (head r)"
  from assms(1) have il: "?i < length (element r)" and len: "length (element r1) = length (element r)"
    and st: "step (element r1 ! ?i) = head r + 1 + mask' r"
    by (auto simp: Poll_def Let_def slot_def CompareAndSwapUint64_def split: if_splits)
  have hm: "head r + 1 + mask' r = head r + 2 ^ k" unfolding assms(2) by simp
  have "\<exists>r3. Offer x r2 = Inr (True, r3)"
    if "mask' r2 = mask' r \<and> length (element r2) = length (element r1) \<and>
        tail r2 = head r + 2 ^ k \<and> step (element r2 ! ?i) = step (element r1 ! ?i)" for r2 x
  proof -
    have "slot r2 (tail r2) = slot r (head r + 2 ^ k)" using that by (simp add: slot_def)
    also have "\<dots> = ?i" by (rule slot_wrap [OF assms(2,3)])
    finally have s: "unat (tail r2 AND mask' r2) = ?i" by (simp add: slot_def)
    from that st hm have "step (element r2 ! ?i) = tail r2" by simp
    with s il len that show ?thesis
      by (simp add: Offer_def Let_def CompareAndSwapUint64_def)
  qed
  then have "\<forall>r2 x. mask' r2 = mask' r \<and> length (element r2) = length (element r1) \<and>
                 tail r2 = head r + 2 ^ k \<and>
                 step (element r2 ! ?i) = step (element r1 ! ?i)
            \<longrightarrow> (\<exists>r3. Offer x r2 = Inr (True, r3))"
    by (intro allI impI)
  with st hm show ?thesis by (intro conjI)
qed

text \<open>
  The theorem at the \<open>Poll\<close> of the example above, and at the state reached after
  three more offers (tail 4 = 0 + capacity), where \<open>Offer(50)\<close> succeeds.
\<close>

theorem Poll_rearms_slot_witness:
  "step (element \<lparr>head = 1, tail = 1, mask' = 3,
         element = [\<lparr>step = 4, value' = (10::int)\<rparr>, \<lparr>step = 1, value' = 0\<rparr>,
                    \<lparr>step = 2, value' = 0\<rparr>, \<lparr>step = 3, value' = 0\<rparr>]\<rparr> ! 0) = 0 + 1 + 3 \<and>
   (\<exists>r3. Offer (50::int) \<lparr>head = 1, tail = 4, mask' = 3,
         element = [\<lparr>step = 4, value' = 10\<rparr>, \<lparr>step = 2, value' = 20\<rparr>,
                    \<lparr>step = 3, value' = 30\<rparr>, \<lparr>step = 4, value' = 40\<rparr>]\<rparr> = Inr (True, r3))"
proof -
  let ?r = "\<lparr>head = 0, tail = 1, mask' = 3,
         element = [\<lparr>step = 1, value' = (10::int)\<rparr>, \<lparr>step = 1, value' = 0\<rparr>,
                    \<lparr>step = 2, value' = 0\<rparr>, \<lparr>step = 3, value' = 0\<rparr>]\<rparr>"
  let ?r1 = "\<lparr>head = 1, tail = 1, mask' = 3,
         element = [\<lparr>step = 4, value' = (10::int)\<rparr>, \<lparr>step = 1, value' = 0\<rparr>,
                    \<lparr>step = 2, value' = 0\<rparr>, \<lparr>step = 3, value' = 0\<rparr>]\<rparr>"
  have p: "Poll 0 ?r = Inr (10, True, ?r1)"
    by (simp add: Poll_def CompareAndSwapUint64_def)
  have m: "mask' ?r = 2 ^ 2 - 1" by simp
  let ?r2 = "\<lparr>head = 1, tail = 4, mask' = 3,
         element = [\<lparr>step = 4, value' = (10::int)\<rparr>, \<lparr>step = 2, value' = 20\<rparr>,
                    \<lparr>step = 3, value' = 30\<rparr>, \<lparr>step = 4, value' = 40\<rparr>]\<rparr>"
  note t = Poll_rearms_slot [OF p m]
  from t have a: "step (element ?r1 ! 0) = 0 + 1 + 3"
    by (simp add: slot_def)
  from t [THEN conjunct2, THEN conjunct2, rule_format, of ?r2 50]
  have "\<exists>r3. Offer 50 ?r2 = Inr (True, r3)" by (simp add: slot_def)
  with a show ?thesis by simp
qed

section \<open>No index outside the slice\<close>

lemma Offer_frame:
  "Offer v r = Inr (ok, r') \<Longrightarrow>
     mask' r' = mask' r \<and> length (element r') = length (element r) \<and> head r' = head r"
  by (auto simp: Offer_def Let_def CompareAndSwapUint64_def split: if_splits)

lemma Offer_total: "in_range r \<Longrightarrow> \<exists>ok r'. Offer v r = Inr (ok, r')"
  by (cases "step (element r ! unat (tail r AND mask' r)) = tail r")
     (auto simp: Offer_ok Offer_fail)

lemma Poll_stop_frame:
  "Poll_stop z m r = Inr (vs, r') \<Longrightarrow>
     mask' r' = mask' r \<and> length (element r') = length (element r) \<and> tail r' = tail r"
proof (induction m arbitrary: r vs)
  case 0
  then show ?case by simp
next
  case (Suc m)
  then show ?case
    by (fastforce split: sum.splits prod.splits if_splits dest: Poll_frame)
qed

lemma PollNBatched_Poll_stop:
  assumes "in_range r"
  shows "\<exists>vs r'. Poll_stop z (unat n) r = Inr (vs, r') \<and>
           PollNBatched n r = Inr (vs, of_nat (length vs), r')"
proof (cases "n = 0")
  case True
  then show ?thesis by (simp add: PollNBatched_def)
next
  case False
  from PollNBatched_loop_Poll_stop [OF assms, of 0 n z "[]"] False show ?thesis
    by (simp add: PollNBatched_def)
qed

lemma perform_in_range:
  assumes "in_range r"
  shows "\<exists>out r'. perform z op r = Inr (out, r') \<and> in_range r' \<and> mask' r' = mask' r \<and>
           length (element r') = length (element r)"
proof (cases op)
  case (OpOffer v)
  from Offer_total [OF assms, of v] obtain ok r' where o: "Offer v r = Inr (ok, r')" by blast
  from Offer_frame [OF o] assms have "in_range r'" by (simp add: in_range_def)
  with o Offer_frame [OF o] OpOffer show ?thesis by simp
next
  case OpPoll
  from Poll_total [OF assms, of z] obtain v ok r' where p: "Poll z r = Inr (v, ok, r')" by blast
  with Poll_in_range [OF p assms] Poll_frame [OF p] OpPoll show ?thesis by simp
next
  case (OpPollNBatched n)
  from PollNBatched_Poll_stop [OF assms, of z n] obtain vs r'
    where p: "Poll_stop z (unat n) r = Inr (vs, r')" "PollNBatched n r = Inr (vs, of_nat (length vs), r')"
    by blast
  with Poll_stop_in_range [OF p(1) assms] Poll_stop_frame [OF p(1)] OpPollNBatched
  show ?thesis by simp
qed

lemma run_in_range:
  "in_range r \<Longrightarrow>
     \<exists>outs r'. run z ops r = Inr (outs, r') \<and> in_range r' \<and> mask' r' = mask' r \<and>
           length (element r') = length (element r)"
proof (induction ops arbitrary: r)
  case Nil
  then show ?case by simp
next
  case (Cons op ops)
  from perform_in_range [OF Cons.prems, of z op] obtain out r1
    where p: "perform z op r = Inr (out, r1)" "in_range r1" "mask' r1 = mask' r"
      "length (element r1) = length (element r)" by blast
  from Cons.IH [OF p(2)] obtain outs r' where "run z ops r1 = Inr (outs, r')" "in_range r'"
      "mask' r' = mask' r1" "length (element r') = length (element r1)" by blast
  with p show ?case by simp
qed

text \<open>
  Claim C10.  For every buffer constructed with a capacity of at least 1, a power of two
  or not, every sequence of \<open>Offer\<close>, \<open>Poll\<close> and \<open>PollNBatched\<close> calls runs
  without the panic of an index out of range: the slice keeps its \<open>capacity\<close>
  nodes, the mask stays \<open>capacity - 1\<close>, and every masked position \<open>p & mask\<close> is
  an index below the length of the slice.
\<close>

theorem no_index_out_of_range:
  assumes "capacity \<noteq> 0"
  shows "\<exists>outs r. run z ops (newNodeBased z capacity) = Inr (outs, r) \<and>
           length (element r) = unat capacity \<and> mask' r = capacity - 1 \<and>
           (\<forall>p. unat (p AND mask' r) < length (element r))"
proof -
  from assms have "in_range (newNodeBased z capacity)"
    by (simp add: in_range_def newNodeBased_def unat_minus_one unat_gt_0)
  from run_in_range [OF this, of z ops] obtain outs r
    where r: "run z ops (newNodeBased z capacity) = Inr (outs, r)" "in_range r"
      "mask' r = mask' (newNodeBased z capacity)"
      "length (element r) = length (element (newNodeBased z capacity))" by blast
  from r(2) have "\<forall>p. unat (p AND mask' r) < length (element r)"
    by (simp add: index_in_range)
  with r show ?thesis by (simp add: newNodeBased_def)
qed

text \<open>The theorem at capacity 3, which is not a power of two.\<close>

theorem no_index_out_of_range_witness:
  "(3 :: 64 word) \<noteq> 0 \<and>
   (\<exists>outs r. run (0::int) [OpOffer 10, OpOffer 20, OpPoll, OpPollNBatched 9, OpOffer 30]
        (newNodeBased 0 3) = Inr (outs, r) \<and>
      length (element r) = 3 \<and> mask' r = 2 \<and> (\<forall>p. unat (p AND mask' r) < length (element r)))"
proof -
  have h: "(3 :: 64 word) \<noteq> 0" by simp
  from no_index_out_of_range [OF h, of "0::int" "[OpOffer 10, OpOffer 20, OpPoll, OpPollNBatched 9, OpOffer 30]"]
  show ?thesis by simp
qed

section \<open>PollNBatched against sequential Polls\<close>




section \<open>The contract of PollNBatched\<close>

lemma valid_Poll_stop:
  "valid k r \<Longrightarrow>
     \<exists>r'. Poll_stop z m r = Inr (take m (contents r), r') \<and> valid k r' \<and>
          contents r' = drop m (contents r) \<and> tail r' = tail r \<and>
          head r' = head r + of_nat (min m (length (contents r)))"
proof (induction m arbitrary: r)
  case 0
  then show ?case by simp
next
  case (Suc m)
  show ?case
  proof (cases "unat (tail r - head r) = 0")
    case True
    then have "contents r = []" by (simp add: contents_def)
    with valid_Poll_empty [OF Suc.prems True, of z] Suc.prems show ?thesis by simp
  next
    case False
    then have ne: "contents r \<noteq> []" using length_contents [of r] by auto
    from False valid_Poll [OF Suc.prems, of z] obtain r1
      where p: "Poll z r = Inr (hd (contents r), True, r1)" "valid k r1"
        "contents r1 = tl (contents r)" "head r1 = head r + 1" "tail r1 = tail r" by auto
    from Suc.IH [OF p(2)] obtain r' where
      q: "Poll_stop z m r1 = Inr (take m (contents r1), r')" "valid k r'"
        "contents r' = drop m (contents r1)" "tail r' = tail r1"
        "head r' = head r1 + of_nat (min m (length (contents r1)))" by blast
    from ne obtain c cs where c: "contents r = c # cs" by (cases "contents r") auto
    with p q show ?thesis by (simp add: algebra_simps)
  qed
qed

lemma unat_of_nat_length:
  assumes "l \<le> unat (n :: 64 word)"
  shows "unat (of_nat l :: 64 word) = l" and "(of_nat l :: 64 word) \<le> n"
proof -
  have "unat n < 2 ^ LENGTH(64)" by (rule unsigned_less)
  with assms have "l < 2 ^ LENGTH(64)" by simp
  then show u: "unat (of_nat l :: 64 word) = l" by (simp add: unat_of_nat)
  with assms show "(of_nat l :: 64 word) \<le> n" by (simp add: word_le_nat_alt)
qed




section \<open>The invariant of head and tail\<close>

lemma valid_perform:
  assumes v: "valid k r"
  shows "\<exists>out r'. perform z op r = Inr (out, r') \<and> valid k r' \<and>
           tail r' = tail r + of_nat (offered out) \<and> head r' = head r + of_nat (polled out) \<and>
           length (contents r) + offered out = length (contents r') + polled out"
proof (cases op)
  case (OpOffer x)
  from v have dle: "unat (tail r - head r) \<le> 2 ^ k" by (simp add: valid_def)
  show ?thesis
  proof (cases "unat (tail r - head r) < 2 ^ k")
    case True
    from valid_Offer [OF v True, of x] OpOffer show ?thesis by auto
  next
    case False
    with dle have "unat (tail r - head r) = 2 ^ k" by simp
    from valid_Offer_full [OF v this, of x] OpOffer v show ?thesis by simp
  qed
next
  case OpPoll
  show ?thesis
  proof (cases "unat (tail r - head r) = 0")
    case True
    from valid_Poll_empty [OF v True, of z] OpPoll v show ?thesis by simp
  next
    case False
    then have ne: "contents r \<noteq> []" using length_contents [of r] by auto
    from False valid_Poll [OF v, of z] obtain r1
      where p: "Poll z r = Inr (hd (contents r), True, r1)" "valid k r1"
        "contents r1 = tl (contents r)" "head r1 = head r + 1" "tail r1 = tail r" by auto
    with ne OpPoll show ?thesis by simp
  qed
next
  case (OpPollNBatched n)
  from valid_Poll_stop [OF v, of z "unat n"] obtain r'
    where q: "Poll_stop z (unat n) r = Inr (take (unat n) (contents r), r')" "valid k r'"
      "contents r' = drop (unat n) (contents r)" "tail r' = tail r"
      "head r' = head r + of_nat (min (unat n) (length (contents r)))" by blast
  let ?l = "length (take (unat n) (contents r))"
  from PollNBatched_Poll_stop [OF valid_in_range [OF v], of z n] q(1)
  have p: "PollNBatched n r = Inr (take (unat n) (contents r), of_nat ?l, r')"
    by auto
  have "?l \<le> unat n" by simp
  from unat_of_nat_length(1) [OF this]
  have "unat (of_nat ?l :: 64 word) = min (unat n) (length (contents r))"
    by (simp add: min.commute)
  with p q OpPollNBatched show ?thesis by (auto simp: min_def)
qed

lemma valid_run:
  "valid k r \<Longrightarrow>
     \<exists>outs r'. run z ops r = Inr (outs, r') \<and> valid k r' \<and>
        tail r' = tail r + of_nat (sum_list (map offered outs)) \<and>
        head r' = head r + of_nat (sum_list (map polled outs)) \<and>
        length (contents r) + sum_list (map offered outs)
          = length (contents r') + sum_list (map polled outs)"
proof (induction ops arbitrary: r)
  case Nil
  then show ?case by simp
next
  case (Cons op ops)
  from valid_perform [OF Cons.prems, of z op] obtain out r1
    where p: "perform z op r = Inr (out, r1)" "valid k r1"
      "tail r1 = tail r + of_nat (offered out)" "head r1 = head r + of_nat (polled out)"
      "length (contents r) + offered out = length (contents r1) + polled out" by blast
  from Cons.IH [OF p(2)] obtain outs r' where
    q: "run z ops r1 = Inr (outs, r')" "valid k r'"
      "tail r' = tail r1 + of_nat (sum_list (map offered outs))"
      "head r' = head r1 + of_nat (sum_list (map polled outs))"
      "length (contents r1) + sum_list (map offered outs)
          = length (contents r') + sum_list (map polled outs)" by blast
  from p q show ?case by simp
qed

text \<open>
  Claim C1 says that from a fresh buffer of any capacity \<open>C\<close> the distance
  \<open>tail - head\<close> never exceeds \<open>C\<close>.  With capacity 1 the mask is 0, the single node
  is ready for every \<open>Offer\<close>, and two offers give \<open>tail - head = 2\<close>.  With
  capacity 3 the mask is 2 (binary 10), positions 0 and 1 share node 0 and positions 2
  and 3 share node 2, and four offers succeed: \<open>tail - head = 4\<close>.
\<close>

theorem head_tail_invariant_counterexample:
  "run (0::int) [OpOffer 10, OpOffer 20] (newNodeBased 0 1)
     = Inr ([Offered True, Offered True],
            \<lparr>head = 0, tail = 2, mask' = 0, element = [\<lparr>step = 2, value' = 20\<rparr>]\<rparr>) \<and>
   \<not> unat ((2 :: 64 word) - 0) \<le> unat (1 :: 64 word) \<and>
   run (0::int) [OpOffer 10, OpOffer 20, OpOffer 30, OpOffer 40] (newNodeBased 0 3)
     = Inr ([Offered True, Offered True, Offered True, Offered True],
            \<lparr>head = 0, tail = 4, mask' = 2,
               element = [\<lparr>step = 2, value' = 20\<rparr>, \<lparr>step = 1, value' = 0\<rparr>,
                          \<lparr>step = 4, value' = 40\<rparr>]\<rparr>) \<and>
   \<not> unat ((4 :: 64 word) - 0) \<le> unat (3 :: 64 word)"
  by (simp add: newNodeBased_def upt_rec Offer_def CompareAndSwapUint64_def)

text \<open>
  Claim C1, amended.  Starting from a fresh buffer whose capacity is a power of two
  \<open>2 ^ k\<close> and at least 2, every sequence of \<open>Offer\<close>, \<open>Poll\<close> and
  \<open>PollNBatched\<close> calls runs without panic and ends in a state where
  \<open>tail - head\<close>, as an unsigned 64-bit distance, is at most the capacity.
  Moreover \<open>tail\<close> is the number of values offered and \<open>head\<close> the number of
  values polled (both modulo \<open>2 ^ 64\<close>), and these numbers satisfy
  polled \<open>\<le>\<close> offered \<open>\<le>\<close> polled + capacity: this is \<open>head \<le> tail\<close> without
  the wrap-around.
\<close>

theorem head_tail_invariant:
  assumes "1 \<le> k" and "k < 64"
  shows "\<exists>outs r. run z ops (newNodeBased z (2 ^ k)) = Inr (outs, r) \<and>
           unat (tail r - head r) \<le> 2 ^ k \<and>
           tail r = of_nat (sum_list (map offered outs)) \<and>
           head r = of_nat (sum_list (map polled outs)) \<and>
           sum_list (map polled outs) \<le> sum_list (map offered outs) \<and>
           sum_list (map offered outs) \<le> sum_list (map polled outs) + 2 ^ k \<and>
           unat (tail r - head r) = sum_list (map offered outs) - sum_list (map polled outs)"
proof -
  note n = newNodeBased_valid [OF assms, of z]
  from valid_run [OF n(1), of z ops] obtain outs r where
    q: "run z ops (newNodeBased z (2 ^ k)) = Inr (outs, r)" "valid k r"
      "tail r = tail (newNodeBased z (2 ^ k)) + of_nat (sum_list (map offered outs))"
      "head r = head (newNodeBased z (2 ^ k)) + of_nat (sum_list (map polled outs))"
      "length (contents (newNodeBased z (2 ^ k))) + sum_list (map offered outs)
          = length (contents r) + sum_list (map polled outs)" by blast
  from q(2) have d: "unat (tail r - head r) \<le> 2 ^ k" by (simp add: valid_def)
  from q(5) n(2) have e: "sum_list (map offered outs)
      = unat (tail r - head r) + sum_list (map polled outs)"
    by (simp add: length_contents)
  from q(3,4) have ht: "tail r = of_nat (sum_list (map offered outs))"
    "head r = of_nat (sum_list (map polled outs))" by (simp_all add: newNodeBased_def)
  from d e have "sum_list (map polled outs) \<le> sum_list (map offered outs)"
    "sum_list (map offered outs) \<le> sum_list (map polled outs) + 2 ^ k"
    "unat (tail r - head r) = sum_list (map offered outs) - sum_list (map polled outs)"
    by linarith+
  with q(1) d ht show ?thesis by blast
qed

text \<open>The theorem at capacity 2 and a sequence of five calls.\<close>

theorem head_tail_invariant_witness:
  "(1::nat) \<le> 1 \<and> (1::nat) < 64 \<and>
   (\<exists>outs r. run (0::int) [OpOffer 1, OpOffer 2, OpOffer 3, OpPoll, OpPollNBatched 4]
        (newNodeBased 0 (2 ^ 1)) = Inr (outs, r) \<and>
      unat (tail r - head r) \<le> 2 ^ 1 \<and>
      sum_list (map polled outs) \<le> sum_list (map offered outs) \<and>
      sum_list (map offered outs) \<le> sum_list (map polled outs) + 2 ^ 1)"
proof -
  have h: "(1::nat) \<le> 1" "(1::nat) < 64" by simp_all
  from head_tail_invariant [OF h, of "0::int" "[OpOffer 1, OpOffer 2, OpOffer 3, OpPoll, OpPollNBatched 4]"]
  show ?thesis using h by blast
qed

section \<open>Round trip and the full and empty boundaries\<close>

text \<open>
  Claim C5.  For every capacity \<open>C = 2 ^ k\<close> with \<open>k \<ge> 1\<close> and every list \<open>xs\<close>
  of \<open>C\<close> values: offering the values into a fresh buffer succeeds \<open>C\<close> times, and
  \<open>C\<close> polls then return the values in the order they were offered.  Afterwards the
  buffer is logically empty: head equals tail, a further \<open>Poll\<close> returns false and
  a further \<open>Offer\<close> succeeds.
\<close>

theorem round_trip:
  assumes "1 \<le> k" and "k < 64" and "length xs = 2 ^ k"
  shows "\<exists>r. run z (map OpOffer xs @ replicate (2 ^ k) OpPoll) (newNodeBased z (2 ^ k))
             = Inr (map (\<lambda>x. Offered True) xs @ map (\<lambda>x. Polled x True) xs, r) \<and>
           head r = tail r \<and> Poll z r = Inr (z, False, r) \<and> (\<exists>r'. Offer y r = Inr (True, r'))"
proof -
  note n = newNodeBased_valid [OF assms(1,2), of z]
  from run_offers [OF n(1), of xs z] n(2) assms(3) obtain r1
    where o: "run z (map OpOffer xs) (newNodeBased z (2 ^ k)) = Inr (map (\<lambda>x. Offered True) xs, r1)"
      "valid k r1" "contents r1 = xs" by auto
  from run_polls [OF o(2), of "2 ^ k" z] o(3) assms(3) obtain r
    where p: "run z (replicate (2 ^ k) OpPoll) r1 = Inr (map (\<lambda>x. Polled x True) xs, r)"
      "valid k r" "contents r = []" by auto
  from p(3) have d: "unat (tail r - head r) = 0" using length_contents [of r] by simp
  then have "tail r - head r = 0" by (simp add: unat_eq_0)
  then have "head r = tail r" by simp
  moreover from valid_Offer [OF p(2), of y] d obtain r' where "Offer y r = Inr (True, r')" by auto
  moreover note valid_Poll_empty [OF p(2) d, of z]
  ultimately show ?thesis using o(1) p(1) by (simp add: run_append)
qed

text \<open>The theorem at capacity 2 with the values 7, 8.\<close>

theorem round_trip_witness:
  "(1::nat) \<le> 1 \<and> (1::nat) < 64 \<and> length [7, 8 :: int] = 2 ^ 1 \<and>
   (\<exists>r. run (0::int) [OpOffer 7, OpOffer 8, OpPoll, OpPoll] (newNodeBased 0 (2 ^ 1))
             = Inr ([Offered True, Offered True, Polled 7 True, Polled 8 True], r) \<and>
        head r = tail r \<and> Poll 0 r = Inr (0, False, r) \<and> (\<exists>r'. Offer 9 r = Inr (True, r')))"
proof -
  have h: "(1::nat) \<le> 1" "(1::nat) < 64" "length [7, 8 :: int] = 2 ^ 1" by simp_all
  have e: "map OpOffer [7, 8 :: int] @ replicate (2 ^ 1) OpPoll = [OpOffer 7, OpOffer 8, OpPoll, OpPoll]"
    by (simp add: numeral_2_eq_2)
  from round_trip [OF h, of 0 9, unfolded e] show ?thesis using h by simp
qed

text \<open>
  Claim C6 says that for every capacity \<open>C\<close>, after \<open>C\<close> successful offers on a
  fresh buffer the next \<open>Offer\<close> returns false.  With capacity 1 the second
  \<open>Offer\<close> succeeds, and with capacity 3 the fourth one does.
\<close>

theorem full_boundary_counterexample:
  "map_sum id fst (run (0::int) [OpOffer 10, OpOffer 20] (newNodeBased 0 1))
     = Inr [Offered True, Offered True] \<and>
   map_sum id fst (run (0::int) [OpOffer 10, OpOffer 20, OpOffer 30, OpOffer 40] (newNodeBased 0 3))
     = Inr [Offered True, Offered True, Offered True, Offered True]"
  by (simp add: newNodeBased_def upt_rec Offer_def CompareAndSwapUint64_def)

text \<open>
  Claim C6, amended.  For every capacity \<open>C = 2 ^ k\<close> with \<open>k \<ge> 1\<close>: \<open>C\<close> offers
  on a fresh buffer all succeed and the next \<open>Offer\<close> returns false and leaves the
  buffer as it is; and in a state of such a buffer that holds no published value,
  \<open>Poll\<close> returns the zero value and false, and the buffer (so also head) is
  unchanged.
\<close>

theorem full_and_empty_boundary:
  assumes "1 \<le> k" and "k < 64"
  shows "(length xs = 2 ^ k \<longrightarrow>
            (\<exists>r. run z (map OpOffer xs) (newNodeBased z (2 ^ k)) = Inr (map (\<lambda>x. Offered True) xs, r) \<and>
                 Offer y r = Inr (False, r))) \<and>
         (valid k r \<and> contents r = [] \<longrightarrow> Poll z r = Inr (z, False, r))"
proof (rule conjI; rule impI)
  assume len: "length xs = 2 ^ k"
  note n = newNodeBased_valid [OF assms(1,2), of z]
  from run_offers [OF n(1), of xs z] n(2) len obtain r1
    where o: "run z (map OpOffer xs) (newNodeBased z (2 ^ k)) = Inr (map (\<lambda>x. Offered True) xs, r1)"
      "valid k r1" "contents r1 = xs" by auto
  from o(3) len have "unat (tail r1 - head r1) = 2 ^ k" using length_contents [of r1] by simp
  from valid_Offer_full [OF o(2) this, of y] o(1)
  show "\<exists>r. run z (map OpOffer xs) (newNodeBased z (2 ^ k)) = Inr (map (\<lambda>x. Offered True) xs, r) \<and>
                 Offer y r = Inr (False, r)" by blast
next
  assume a: "valid k r \<and> contents r = []"
  then have "unat (tail r - head r) = 0" using length_contents [of r] by simp
  moreover from a have "valid k r" by simp
  ultimately show "Poll z r = Inr (z, False, r)" by (rule valid_Poll_empty [rotated])
qed

text \<open>The theorem at capacity 2: two offers fill it, and the fresh buffer is empty.\<close>

theorem full_and_empty_boundary_witness:
  "(1::nat) \<le> 1 \<and> (1::nat) < 64 \<and> length [7, 8 :: int] = 2 ^ 1 \<and>
   valid 1 (newNodeBased (0::int) (2 ^ 1)) \<and> contents (newNodeBased (0::int) (2 ^ 1)) = [] \<and>
   (\<exists>r. run (0::int) [OpOffer 7, OpOffer 8] (newNodeBased 0 (2 ^ 1)) = Inr ([Offered True, Offered True], r) \<and>
        Offer 9 r = Inr (False, r)) \<and>
   Poll 0 (newNodeBased (0::int) (2 ^ 1)) = Inr (0, False, newNodeBased 0 (2 ^ 1))"
proof -
  have h: "(1::nat) \<le> 1" "(1::nat) < 64" by simp_all
  have l: "length [7, 8 :: int] = 2 ^ 1" by simp
  note n = newNodeBased_valid [OF h, of "0::int"]
  note t = full_and_empty_boundary [OF h, of "[7, 8]" 0 9 "newNodeBased 0 (2 ^ 1)"]
  from t [THEN conjunct1, rule_format, OF l] t [THEN conjunct2, rule_format, OF conjI [OF n]] n h l
  show ?thesis by simp
qed

section \<open>SingleProducerOffer\<close>








end
